theory Spec2Isabelle
  imports Main "HOL-Library.AList" "HOL-Library.Sublist"
begin

section \<open>JavaScript values\<close>

text \<open>
  The values that reach \<open>on\<close>, \<open>off\<close>, \<open>trigger\<close> and \<open>markDeprecated\<close> of
  \<^verbatim>\<open>src/utils/EventDispatcher.js\<close>. Functions and objects are references
  (\<open>===\<close> on them is identity, here equality of the reference); \<open>TypeError\<close> is the
  error object the runtime throws on \<open>undefined.x\<close> or on calling a non-function.
  Objects are plain ones: they have no \<open>split\<close> or \<open>apply\<close> member, and
  \<open>String(o)\<close> and \<open>o.stack\<close> do not throw on them. A string is a list of code units;
  \<^typ>\<open>char\<close> covers the code units 0 to 255.
\<close>

datatype jsval = Undefined | Null | Bool bool | Str string | Obj nat | Fun nat | TypeError

text \<open>\<open>!v\<close> is \<open>\<not> truthy v\<close>.\<close>

fun truthy :: "jsval \<Rightarrow> bool" where
  "truthy Undefined = False"
| "truthy Null = False"
| "truthy (Bool b) = b"
| "truthy (Str s) = (s \<noteq> [])"
| "truthy (Obj r) = True"
| "truthy (Fun f) = True"
| "truthy TypeError = True"

text \<open>How a call ends: it returns a value or throws one.\<close>

datatype completion = Return jsval | Throw jsval

section \<open>Splitting the event list\<close>

text \<open>
  The class \<open>\s\<close> of a JavaScript regular expression, on the code units 0 to 255:
  tab, line feed, vertical tab, form feed, carriage return, space, no-break space.
\<close>

definition is_space :: "char \<Rightarrow> bool" where
  "is_space c =
     (c \<in> set [CHR 0x09, CHR 0x0A, CHR 0x0B, CHR 0x0C, CHR 0x0D, CHR 0x20, CHR 0xA0])"

text \<open>
  \<open>events.split(/\s+/)\<close>. \<open>split_from piece rest\<close> has read \<open>piece\<close> since the last
  separator and still has \<open>rest\<close> to read. A separator is a maximal run of white space;
  it closes the current piece, also when that piece is empty (at the start of the
  string), and the piece open at the end of the string is pushed last, also when it is
  empty. So the empty string splits into one empty piece.
\<close>

function split_from :: "string \<Rightarrow> string \<Rightarrow> string list" where
  "split_from piece [] = [piece]"
| "split_from piece (c # cs) =
     (if is_space c then piece # split_from [] (dropWhile is_space cs)
      else split_from (piece @ [c]) cs)"
  by pat_completeness auto
termination
  by (relation "measure (\<lambda>(piece, rest). length rest)")
     (auto simp: length_dropWhile_le less_Suc_eq_le)

definition split_ws :: "string \<Rightarrow> string list" where
  "split_ws events = split_from [] events"

section \<open>Handler records\<close>

text \<open>
  The record \<open>splitNs\<close> returns and \<open>on\<close> completes with the handler. A member that
  the object literal leaves out reads as \<open>undefined\<close>: \<open>ns = None\<close>, and
  \<open>handler = Undefined\<close> until \<open>on\<close> sets it.
\<close>

record event_rec =
  eventName :: string
  ns :: "string option"
  handler :: jsval

text \<open>\<open>eventStr.indexOf(".")\<close>: the index of the first dot, or -1.\<close>

definition indexOf :: "string \<Rightarrow> char \<Rightarrow> int" where
  "indexOf s c = (if c \<in> set s then int (length (takeWhile (\<lambda>x. x \<noteq> c) s)) else - 1)"

definition splitNs :: "string \<Rightarrow> event_rec" where
  "splitNs eventStr =
     (let dot = indexOf eventStr CHR ''.'' in
      if dot = - 1 then \<lparr>eventName = eventStr, ns = None, handler = Undefined\<rparr>
      else \<lparr>eventName = take (nat dot) eventStr, ns = Some (drop (nat dot) eventStr),
            handler = Undefined\<rparr>)"

text \<open>\<open>events.split(/\s+/).map(splitNs)\<close>\<close>

definition eventsList :: "string \<Rightarrow> event_rec list" where
  "eventsList events = map splitNs (split_ws events)"

section \<open>The host object\<close>

text \<open>
  An object that \<open>makeEventDispatcher\<close> has given the three methods. \<open>ref\<close> is its
  identity: the value of \<open>this\<close> is \<open>Obj (ref this)\<close>. \<open>eventHandlers\<close> and
  \<open>deprecatedEvents\<close> are the members \<open>_eventHandlers\<close> and \<open>_deprecatedEvents\<close>,
  \<open>None\<close> while the object has none. Each is a JavaScript object, made by \<open>{}\<close> and
  used as a dictionary: here an association list of its own properties, in the order the
  keys were added, no key twice.
\<close>

type_synonym handler_table = "(string \<times> event_rec list) list"

record host =
  ref :: nat
  eventHandlers :: "handler_table option"
  deprecatedEvents :: "(string \<times> jsval) list option"

text \<open>What the methods write to the console.\<close>

datatype console_entry =
    Warn string
  | Error string jsval jsval
  | AssertFailed

section \<open>Reading a member of a table\<close>

text \<open>
  An object made by \<open>{}\<close> inherits the members of \<open>Object.prototype\<close>, and the
  source reads its tables with \<open>table[name]\<close>, which finds them. All of them are
  truthy and none is a string or an array. Each is listed with the number its \<open>length\<close>
  gives to a loop: the \<open>length\<close> of the function, and 0 for \<open>__proto__\<close>, which reads as
  \<open>Object.prototype\<close> itself, an object with no \<open>length\<close> (a loop bounded by it does not
  run, and \<open>!length\<close> is true). None of them has a member at an index, a \<open>push\<close> or a
  \<open>splice\<close>.
\<close>

definition objectPrototype :: "(string \<times> nat) list" where
  "objectPrototype =
     [(''constructor'', 1), (''toString'', 0), (''toLocaleString'', 0), (''valueOf'', 0),
      (''hasOwnProperty'', 1), (''isPrototypeOf'', 1), (''propertyIsEnumerable'', 1),
      (''__defineGetter__'', 2), (''__defineSetter__'', 2),
      (''__lookupGetter__'', 1), (''__lookupSetter__'', 1), (''__proto__'', 0)]"

text \<open>
  \<open>table[name]\<close>: the table's own property when it has one, else the inherited member,
  else \<open>undefined\<close>.
\<close>

datatype 'a member = Own 'a | Inherited nat | Missing

definition lookup :: "(string \<times> 'a) list \<Rightarrow> string \<Rightarrow> 'a member" where
  "lookup t name =
     (case map_of t name of
        Some v \<Rightarrow> Own v
      | None \<Rightarrow> (case map_of objectPrototype name of Some n \<Rightarrow> Inherited n | None \<Rightarrow> Missing))"

text \<open>
  A loop whose body may throw: \<open>for_each body xs st\<close> runs the body on the elements of
  \<open>xs\<close> in order, from the state \<open>st\<close>, and stops at the first element where the body
  throws, with the value thrown and the state reached.
\<close>

fun for_each :: "('a \<Rightarrow> 's \<Rightarrow> jsval option \<times> 's) \<Rightarrow> 'a list \<Rightarrow> 's \<Rightarrow> jsval option \<times> 's" where
  "for_each body [] st = (None, st)"
| "for_each body (x # xs) st =
     (case body x st of
        (Some e, st') \<Rightarrow> (Some e, st')
      | (None, st') \<Rightarrow> for_each body xs st')"

text \<open>How a call ends that returns \<open>v\<close> unless something was thrown.\<close>

definition ends :: "jsval option \<Rightarrow> jsval \<Rightarrow> completion" where
  "ends thrown v = (case thrown of None \<Rightarrow> Return v | Some e \<Rightarrow> Throw e)"

section \<open>Registration: \<open>on\<close>\<close>

text \<open>
  The message of a deprecation warning:
  \<^verbatim>\<open>"Registering for deprecated event '" + eventName + "'."\<close>, followed by
  \<^verbatim>\<open>" Use " + deprecation + " instead."\<close> when the table holds a string.
\<close>

definition deprecation_message :: "string \<Rightarrow> jsval \<Rightarrow> string" where
  "deprecation_message name deprecation =
     ''Registering for deprecated event '' @ [CHR 0x27] @ name @ [CHR 0x27] @ ''.'' @
     (case deprecation of Str instead \<Rightarrow> '' Use '' @ instead @ '' instead.'' | _ \<Rightarrow> [])"

text \<open>
  The body of the first loop of \<open>on\<close>: \<open>console.warn\<close> when
  \<open>this._deprecatedEvents[eventName]\<close> is truthy. An inherited member is truthy and not
  a string, so it gives the message without a replacement. The stack trace passed along
  is not modelled.
\<close>

definition warnings :: "(string \<times> jsval) list \<Rightarrow> event_rec \<Rightarrow> console_entry list" where
  "warnings deprecated r =
     (case lookup deprecated (eventName r) of
        Missing \<Rightarrow> []
      | Inherited n \<Rightarrow>
          [Warn (''Registering for deprecated event '' @ [CHR 0x27] @ eventName r @ [CHR 0x27] @ ''.'')]
      | Own deprecation \<Rightarrow>
          if truthy deprecation then [Warn (deprecation_message (eventName r) deprecation)]
          else [])"

text \<open>
  The body of the second loop of \<open>on\<close>: create the table when the host has none; when
  \<open>this._eventHandlers[eventName]\<close> is falsy, which it is only when missing, start an
  empty list; set the handler of the record and push it. Where the name reads as an
  inherited member no list is started, and \<open>push\<close>, which the member has not, throws a
  TypeError; the table has been created by then.
\<close>

definition attach ::
  "jsval \<Rightarrow> event_rec \<Rightarrow> handler_table option \<Rightarrow> jsval option \<times> handler_table option"
where
  "attach fn r handlers =
     (let t = (case handlers of None \<Rightarrow> [] | Some t \<Rightarrow> t) in
      case lookup t (eventName r) of
        Inherited n \<Rightarrow> (Some TypeError, Some t)
      | Own handlerList \<Rightarrow>
          (None, Some (AList.update (eventName r) (handlerList @ [r\<lparr>handler := fn\<rparr>]) t))
      | Missing \<Rightarrow>
          (None, Some (AList.update (eventName r) [r\<lparr>handler := fn\<rparr>] t)))"

text \<open>
  \<open>on\<close> returns how the call ends, the host after it and what it wrote to the console.
  \<open>events.split\<close> is the first thing evaluated: on a value that is not a string it
  throws a TypeError, before anything is changed. The loop of the warnings runs to its
  end before the loop of the registrations starts; where that one throws, the host keeps
  the registrations made before.
\<close>

definition on :: "host \<Rightarrow> jsval \<Rightarrow> jsval \<Rightarrow> completion \<times> host \<times> console_entry list" where
  "on this events fn =
     (case events of
        Str s \<Rightarrow>
          (let el = eventsList s;
               out = (case deprecatedEvents this of
                        None \<Rightarrow> []
                      | Some deprecated \<Rightarrow> concat (map (warnings deprecated) el));
               (thrown, handlers) = for_each (attach fn) el (eventHandlers this)
           in (ends thrown (Obj (ref this)), this\<lparr>eventHandlers := handlers\<rparr>, out))
      | _ \<Rightarrow> (Throw TypeError, this, []))"

section \<open>Removal: \<open>off\<close>\<close>

text \<open>
  The test of the inner loop:
  \<^verbatim>\<open>(!eventRec.ns || eventRec.ns === handlerList[k].ns) && (!fn || fn === handlerList[k].handler)\<close>.
  A namespace is falsy when it is missing or the empty string.
\<close>

definition ns_given :: "string option \<Rightarrow> bool" where
  "ns_given n = (case n of None \<Rightarrow> False | Some s \<Rightarrow> s \<noteq> [])"

definition matches :: "event_rec \<Rightarrow> jsval \<Rightarrow> event_rec \<Rightarrow> bool" where
  "matches eventRec fn h =
     ((\<not> ns_given (ns eventRec) \<or> ns eventRec = ns h) \<and> (\<not> truthy fn \<or> fn = handler h))"

text \<open>\<open>handlerList.splice(k, 1)\<close>\<close>

definition splice1 :: "nat \<Rightarrow> 'a list \<Rightarrow> 'a list" where
  "splice1 k xs = take k xs @ drop (Suc k) xs"

text \<open>
  The loop \<^verbatim>\<open>for (k = handlerList.length - 1; k >= 0; k--)\<close> over a list of the
  table: \<open>walk eventRec fn n hl\<close> has the indices below \<open>n\<close> still to visit, the next
  one being \<open>n - 1\<close>. It starts at the length of the list, and a splice at \<open>k\<close> leaves
  the indices below \<open>k\<close> in place, so every index it reads is in range.
\<close>

fun walk :: "event_rec \<Rightarrow> jsval \<Rightarrow> nat \<Rightarrow> event_rec list \<Rightarrow> event_rec list" where
  "walk eventRec fn 0 handlerList = handlerList"
| "walk eventRec fn (Suc k) handlerList =
     walk eventRec fn k
       (if matches eventRec fn (handlerList ! k) then splice1 k handlerList else handlerList)"

text \<open>
  \<open>removeAllMatches\<close>, with the value it throws, if any, and the table after it. Nothing
  happens when \<open>this._eventHandlers[eventName]\<close> is missing. A list of the table is
  walked, and its key deleted when the list is left empty. An inherited member is taken
  for the list: with length 0 the loop does not run and the \<open>delete\<close> of a name that is
  not a property of the table changes nothing; with a greater length the first round of
  the loop throws a TypeError, whatever the record and \<open>fn\<close> are, since the member at
  index \<open>k\<close> is \<open>undefined\<close> (reading its \<open>ns\<close> or its \<open>handler\<close> throws) and there is
  no \<open>splice\<close> to call.
\<close>

definition removeAllMatches ::
  "jsval \<Rightarrow> event_rec \<Rightarrow> string \<Rightarrow> handler_table \<Rightarrow> jsval option \<times> handler_table"
where
  "removeAllMatches fn eventRec name t =
     (case lookup t name of
        Missing \<Rightarrow> (None, t)
      | Inherited n \<Rightarrow> (if n = 0 then (None, t) else (Some TypeError, t))
      | Own handlerList \<Rightarrow>
          (let hl = walk eventRec fn (length handlerList) handlerList
           in (None, if hl = [] then AList.delete name t else AList.update name hl t)))"

text \<open>
  \<open>doRemove\<close>: an event name that is truthy (not the empty string) selects its own list;
  otherwise \<open>_.forEach\<close> visits the table's own keys, those it has when the loop starts.
\<close>

definition doRemove :: "jsval \<Rightarrow> event_rec \<Rightarrow> handler_table \<Rightarrow> jsval option \<times> handler_table" where
  "doRemove fn eventRec t =
     (if eventName eventRec \<noteq> [] then removeAllMatches fn eventRec (eventName eventRec) t
      else for_each (removeAllMatches fn eventRec) (map fst t) t)"

text \<open>
  \<open>off\<close> returns how the call ends and the host after it. \<open>events.split\<close> comes first,
  as in \<open>on\<close>; then a host with no table returns at once, with the bare
  \<^verbatim>\<open>return;\<close> of the source, whose value is \<open>undefined\<close>. Where a token throws, the
  host keeps what the tokens before it removed.
\<close>

definition off :: "host \<Rightarrow> jsval \<Rightarrow> jsval \<Rightarrow> completion \<times> host" where
  "off this events fn =
     (case events of
        Str s \<Rightarrow>
          (let el = eventsList s in
           case eventHandlers this of
             None \<Rightarrow> (Return Undefined, this)
           | Some t \<Rightarrow>
               (let (thrown, t') = for_each (doRemove fn) el t
                in (ends thrown (Obj (ref this)), this\<lparr>eventHandlers := Some t'\<rparr>)))
      | _ \<Rightarrow> (Throw TypeError, this))"

section \<open>Dispatch: \<open>trigger\<close>\<close>

text \<open>
  The event object \<^verbatim>\<open>{ type: eventName, target: this }\<close>, and one invocation of a
  function: which function, with which event object and which further arguments.
\<close>

record event =
  type :: string
  target :: jsval

record call =
  callee :: nat
  event_arg :: event
  args :: "jsval list"

text \<open>
  What the functions do when called is a parameter: for each function reference, event
  object and further arguments, whether the call returns or what it throws. A handler
  is code from outside; the model takes it not to call \<open>on\<close> or \<open>off\<close> of the same host
  while a dispatch runs.
\<close>

type_synonym env = "nat \<Rightarrow> event \<Rightarrow> jsval list \<Rightarrow> completion"

text \<open>
  \<^verbatim>\<open>handlerList[i].handler.apply(null, applyArgs)\<close>: a function is called; on any other
  value the expression throws a TypeError and nothing is called.
\<close>

definition invoke :: "env \<Rightarrow> jsval \<Rightarrow> event \<Rightarrow> jsval list \<Rightarrow> call list \<times> completion" where
  "invoke env h ev extra =
     (case h of
        Fun f \<Rightarrow> ([\<lparr>callee = f, event_arg = ev, args = extra\<rparr>], env f ev extra)
      | _ \<Rightarrow> ([], Throw TypeError))"

text \<open>
  The catch clause of \<open>trigger\<close>, for the value caught. It evaluates the arguments of
  \<open>console.error\<close> first, \<open>err.stack\<close> among them: on \<open>null\<close> and \<open>undefined\<close> that throws
  a TypeError, out of the catch clause and so out of \<open>trigger\<close>, before anything is
  written. Otherwise the error is written and \<open>console.assert(false)\<close> after it, which
  writes its failure and does not throw. The entry \<open>Error\<close> keeps the message, the host
  and the value caught (\<open>String(err)\<close> and \<open>err.stack\<close> come from it).
\<close>

definition caught :: "jsval \<Rightarrow> string \<Rightarrow> jsval \<Rightarrow> completion \<times> console_entry list" where
  "caught this name err =
     (if err = Undefined \<or> err = Null then (Throw TypeError, [])
      else (Return Undefined,
            [Error (''Exception in '' @ [CHR 0x27] @ name @ [CHR 0x27] @ '' listener on'')
               this err,
             AssertFailed]))"

text \<open>The body of the loop of \<open>trigger\<close>, \<^verbatim>\<open>try { ... } catch (err) { ... }\<close>, on a record.\<close>

definition listener ::
  "env \<Rightarrow> jsval \<Rightarrow> string \<Rightarrow> jsval list \<Rightarrow> event_rec \<Rightarrow> completion \<times> call list \<times> console_entry list"
where
  "listener env this name extra h =
     (case invoke env (handler h) \<lparr>type = name, target = this\<rparr> extra of
        (calls, Return v) \<Rightarrow> (Return Undefined, calls, [])
      | (calls, Throw err) \<Rightarrow>
          (case caught this name err of (c, out) \<Rightarrow> (c, calls, out)))"

text \<open>
  The loop \<^verbatim>\<open>for (i = 0; i < handlerList.length; i++)\<close>, over a list that does not
  change while it runs. It stops where a body throws.
\<close>

fun dispatch ::
  "env \<Rightarrow> jsval \<Rightarrow> string \<Rightarrow> jsval list \<Rightarrow> event_rec list \<Rightarrow> completion \<times> call list \<times> console_entry list"
where
  "dispatch env this name extra [] = (Return Undefined, [], [])"
| "dispatch env this name extra (h # hs) =
     (case listener env this name extra h of
        (Throw e, calls, out) \<Rightarrow> (Throw e, calls, out)
      | (Return v, calls, out) \<Rightarrow>
          (case dispatch env this name extra hs of
             (c, calls', out') \<Rightarrow> (c, calls @ calls', out @ out')))"

text \<open>
  \<open>trigger\<close> returns how the call ends, the invocations it made, in order, and what it
  wrote to the console. It returns at once when the host has no table or
  \<open>this._eventHandlers[eventName]\<close> is missing. An inherited member is taken for the
  list: each of the rounds its length gives reads \<open>handlerList[i].handler\<close> on
  \<open>undefined\<close>, which throws a TypeError that the catch clause writes down.
\<close>

definition trigger ::
  "env \<Rightarrow> host \<Rightarrow> string \<Rightarrow> jsval list \<Rightarrow> completion \<times> call list \<times> console_entry list"
where
  "trigger env this name extra =
     (case eventHandlers this of
        None \<Rightarrow> (Return Undefined, [], [])
      | Some t \<Rightarrow>
          (case lookup t name of
             Missing \<Rightarrow> (Return Undefined, [], [])
           | Inherited n \<Rightarrow>
               (Return Undefined, [],
                concat (replicate n (snd (caught (Obj (ref this)) name TypeError))))
           | Own handlerList \<Rightarrow> dispatch env (Obj (ref this)) name extra handlerList))"

section \<open>Deprecation: \<open>markDeprecated\<close>\<close>

text \<open>
  \<^verbatim>\<open>obj._deprecatedEvents[eventName] = insteadStr || true\<close>, the table created when
  missing. For the name \<open>__proto__\<close> the assignment runs the setter inherited from
  \<open>Object.prototype\<close>, which ignores a value that is neither an object nor \<open>null\<close>: the
  table gets no property.
\<close>

definition markDeprecated :: "host \<Rightarrow> string \<Rightarrow> jsval \<Rightarrow> host" where
  "markDeprecated obj name insteadStr =
     (let deprecated = (case deprecatedEvents obj of None \<Rightarrow> [] | Some d \<Rightarrow> d) in
      obj\<lparr>deprecatedEvents :=
            Some (if name = ''__proto__'' then deprecated
                  else AList.update name (if truthy insteadStr then insteadStr else Bool True)
                         deprecated)\<rparr>)"

text \<open>A host fresh from \<open>makeEventDispatcher\<close>: neither table exists yet.\<close>

definition fresh :: "nat \<Rightarrow> host" where
  "fresh r = \<lparr>ref = r, eventHandlers = None, deprecatedEvents = None\<rparr>"

section \<open>Sequences of calls and what a table holds\<close>

text \<open>
  A call of \<open>on\<close> or of \<open>off\<close> with its two arguments, and the host after a sequence
  of them, made one after the other. After a call that throws, the host is as the call
  left it.
\<close>

datatype request = On jsval jsval | Off jsval jsval

fun perform :: "request \<Rightarrow> host \<Rightarrow> host" where
  "perform (On events fn) this = fst (snd (on this events fn))"
| "perform (Off events fn) this = snd (off this events fn)"

definition run :: "request list \<Rightarrow> host \<Rightarrow> host" where
  "run rs this = fold perform rs this"

text \<open>
  The handler records a table holds for an event name, in order, and the empty list when
  the host has no table or the table has no such key.
\<close>

definition entries :: "handler_table option \<Rightarrow> string \<Rightarrow> event_rec list" where
  "entries handlers name =
     (case handlers of
        None \<Rightarrow> []
      | Some t \<Rightarrow> (case map_of t name of None \<Rightarrow> [] | Some hl \<Rightarrow> hl))"

definition handlers_for :: "host \<Rightarrow> string \<Rightarrow> event_rec list" where
  "handlers_for this name = entries (eventHandlers this) name"

text \<open>
  The two parts of a token in the words of the specification (4.1): the event name is
  what comes before the first dot, the whole token when it has no dot; the namespace is
  what starts at the first dot, the dot included, and is absent when there is no dot.
\<close>

definition token_event :: "string \<Rightarrow> string" where
  "token_event token = takeWhile (\<lambda>c. c \<noteq> CHR ''.'') token"

definition token_namespace :: "string \<Rightarrow> string option" where
  "token_namespace token =
     (if CHR ''.'' \<in> set token then Some (dropWhile (\<lambda>c. c \<noteq> CHR ''.'') token) else None)"

text \<open>
  The filters of one token of \<open>off\<close>, in the words of the specification (4.3), for a
  record held under the event name \<open>name\<close>: the event name of the token when it has one,
  the namespace of the token when it has one, the function when one is given (a value
  that is truthy, as every function is).
\<close>

definition selected :: "string \<Rightarrow> jsval \<Rightarrow> string \<Rightarrow> event_rec \<Rightarrow> bool" where
  "selected token fn name h =
     ((token_event token = [] \<or> token_event token = name) \<and>
      (token_namespace token = None \<or> token_namespace token = ns h) \<and>
      (\<not> truthy fn \<or> fn = handler h))"

text \<open>\<^verbatim>\<open>typeof v === "string"\<close>\<close>

definition is_string :: "jsval \<Rightarrow> bool" where
  "is_string v = (case v of Str s \<Rightarrow> True | _ \<Rightarrow> False)"

text \<open>
  The event names that read as a member of \<open>Object.prototype\<close> in a table that has no
  property of that name. \<open>on\<close> cannot register under a name that is \<open>blocked\<close> for the
  host: inherited, and not a key of the host's table. \<open>off\<close> throws at a name that is
  \<open>fatal\<close>: inherited with a length above 0.
\<close>

definition inherited :: "string \<Rightarrow> bool" where
  "inherited name = (map_of objectPrototype name \<noteq> None)"

definition fatal :: "string \<Rightarrow> bool" where
  "fatal name = (case map_of objectPrototype name of Some (Suc n) \<Rightarrow> True | _ \<Rightarrow> False)"

definition blocked_in :: "handler_table option \<Rightarrow> string \<Rightarrow> bool" where
  "blocked_in handlers name =
     (inherited name \<and> map_of (case handlers of None \<Rightarrow> [] | Some t \<Rightarrow> t) name = None)"

definition blocked :: "host \<Rightarrow> string \<Rightarrow> bool" where
  "blocked this name = blocked_in (eventHandlers this) name"

text \<open>
  A list of calls \<open>(events, fn)\<close> with string event lists, made as calls of \<open>on\<close> and
  as calls of \<open>off\<close>. A record is covered by a list of calls when it is selected by
  some token of some call that comes before the first fatal token of that call.
\<close>

definition ons :: "(string \<times> jsval) list \<Rightarrow> request list" where
  "ons calls = map (\<lambda>(s, fn). On (Str s) fn) calls"

definition offs :: "(string \<times> jsval) list \<Rightarrow> request list" where
  "offs calls = map (\<lambda>(s, fn). Off (Str s) fn) calls"

definition applied :: "string \<Rightarrow> string list" where
  "applied s = takeWhile (\<lambda>token. \<not> fatal (token_event token)) (split_ws s)"

definition covers :: "(string \<times> jsval) list \<Rightarrow> string \<Rightarrow> event_rec \<Rightarrow> bool" where
  "covers calls name h =
     (\<exists>(s, fn) \<in> set calls. \<exists>token \<in> set (applied s). selected token fn name h)"

text \<open>
  The shape of a table that \<open>on\<close> and \<open>off\<close> keep: the keys are distinct, no key is
  the name of an inherited member, no key holds an empty list, and a record is held
  under its own event name.
\<close>

definition tidy :: "handler_table \<Rightarrow> bool" where
  "tidy t =
     (distinct (map fst t) \<and>
      (\<forall>(name, hl) \<in> set t.
         hl \<noteq> [] \<and> \<not> inherited name \<and> (\<forall>h \<in> set hl. eventName h = name)))"

definition tidy_host :: "host \<Rightarrow> bool" where
  "tidy_host this = (case eventHandlers this of None \<Rightarrow> True | Some t \<Rightarrow> tidy t)"

text \<open>The least of it: the association list stands for an object, which has no key twice.\<close>

definition keys_distinct :: "host \<Rightarrow> bool" where
  "keys_distinct this =
     (case eventHandlers this of None \<Rightarrow> True | Some t \<Rightarrow> distinct (map fst t))"

text \<open>
  A handler whose failure the catch clause of \<open>trigger\<close> can write down: called with
  these arguments it returns, or throws a value other than \<open>null\<close> and \<open>undefined\<close>.
  \<open>report\<close> is what the catch clause then writes.
\<close>

definition reportable :: "env \<Rightarrow> event \<Rightarrow> jsval list \<Rightarrow> event_rec \<Rightarrow> bool" where
  "reportable env ev extra h =
     (case handler h of
        Fun f \<Rightarrow> env f ev extra \<noteq> Throw Undefined \<and> env f ev extra \<noteq> Throw Null
      | _ \<Rightarrow> True)"

definition report :: "jsval \<Rightarrow> string \<Rightarrow> completion \<Rightarrow> console_entry list" where
  "report this name c =
     (case c of
        Return v \<Rightarrow> []
      | Throw err \<Rightarrow>
          [Error (''Exception in '' @ [CHR 0x27] @ name @ [CHR 0x27] @ '' listener on'') this err,
           AssertFailed])"

section \<open>Splitting: basic facts\<close>

lemma split_from_nonempty: "split_from piece rest \<noteq> []"
  by (induction piece rest rule: split_from.induct) auto

lemma split_from_trailing:
  "rest \<noteq> [] \<Longrightarrow> is_space (last rest) \<Longrightarrow> last (split_from piece rest) = []"
proof (induction piece rest rule: split_from.induct)
  case (1 piece)
  then show ?case by simp
next
  case (2 piece c cs)
  show ?case
  proof (cases "is_space c")
    case True
    note space = this
    show ?thesis
    proof (cases "dropWhile is_space cs = []")
      case True
      have "split_from piece (c # cs) = [piece, []]"
        by (simp only: split_from.simps space True if_True)
      then show ?thesis by simp
    next
      case False
      then have "cs \<noteq> []" by auto
      have "last (dropWhile is_space cs) = last cs"
        using False by (metis append_take_drop_id last_appendR takeWhile_dropWhile_id)
      with 2 space False \<open>cs \<noteq> []\<close> show ?thesis
        by (simp add: split_from_nonempty)
    qed
  next
    case False
    with 2 have "cs \<noteq> []" by auto
    with 2 False show ?thesis by simp
  qed
qed

lemma split_ws_leading: "s \<noteq> [] \<Longrightarrow> is_space (hd s) \<Longrightarrow> \<exists>rest. split_ws s = [] # rest"
  by (cases s) (simp_all add: split_ws_def)

lemma split_ws_boundary:
  assumes "s \<noteq> []" and "is_space (hd s) \<or> is_space (last s)"
  shows "[] \<in> set (split_ws s)"
  using assms(2)
proof
  assume "is_space (hd s)"
  with assms(1) split_ws_leading [of s] show ?thesis by auto
next
  assume "is_space (last s)"
  with assms(1) have "last (split_from [] s) = []" by (rule split_from_trailing)
  with last_in_set [OF split_from_nonempty, of "[]" s] show ?thesis
    by (simp add: split_ws_def)
qed

lemma split_ws_nonempty: "split_ws s \<noteq> []"
  by (simp add: split_ws_def split_from_nonempty)

lemma eventsList_nonempty: "eventsList s \<noteq> []"
  by (simp add: eventsList_def split_ws_nonempty)

text \<open>\<open>splitNs\<close> cuts a token into the two parts the specification names.\<close>

lemma takeWhile_shorter: "c \<in> set s \<Longrightarrow> length (takeWhile (\<lambda>x. x \<noteq> c) s) < length s"
  by (induction s) auto

lemma splitNs_parts:
  "splitNs token =
     \<lparr>eventName = token_event token, ns = token_namespace token, handler = Undefined\<rparr>"
proof (cases "CHR ''.'' \<in> set token")
  case True
  then show ?thesis
    by (simp add: splitNs_def indexOf_def token_event_def token_namespace_def Let_def
        takeWhile_eq_take [symmetric] dropWhile_eq_drop [symmetric])
next
  case False
  then have whole: "takeWhile (\<lambda>c. c \<noteq> CHR ''.'') token = token"
    by (auto simp: takeWhile_eq_all_conv)
  from False show ?thesis
    by (simp add: splitNs_def indexOf_def token_event_def token_namespace_def Let_def whole)
qed

lemma eventName_splitNs [simp]: "eventName (splitNs token) = token_event token"
  by (simp add: splitNs_parts)

lemma ns_splitNs [simp]: "ns (splitNs token) = token_namespace token"
  by (simp add: splitNs_parts)

text \<open>The namespace of a token starts at the dot, so it is never the empty string.\<close>

lemma ns_given_token: "ns_given (token_namespace token) \<longleftrightarrow> token_namespace token \<noteq> None"
proof (cases "CHR ''.'' \<in> set token")
  case True
  then have "dropWhile (\<lambda>c. c \<noteq> CHR ''.'') token \<noteq> []"
    by simp
  with True show ?thesis by (simp add: token_namespace_def ns_given_def)
next
  case False
  then show ?thesis by (simp add: token_namespace_def ns_given_def)
qed

lemma token_event_empty [simp]: "token_event [] = []" "token_namespace [] = None"
  by (simp_all add: token_event_def token_namespace_def)

lemma inherited_empty [simp]: "\<not> inherited []" "\<not> fatal []"
  by (simp_all add: inherited_def fatal_def objectPrototype_def)

lemma fatal_inherited: "fatal name \<Longrightarrow> inherited name"
  by (auto simp: fatal_def inherited_def split: option.splits nat.splits)

section \<open>What \<open>on\<close> adds\<close>

lemma lookup_inherited:
  "lookup t name = Inherited n \<longleftrightarrow> map_of t name = None \<and> map_of objectPrototype name = Some n"
  by (simp add: lookup_def split: option.splits)

lemma attach_blocked:
  "blocked_in handlers (eventName r) \<Longrightarrow>
   attach fn r handlers =
     (Some TypeError, Some (case handlers of None \<Rightarrow> [] | Some t \<Rightarrow> t))"
  by (auto simp: attach_def blocked_in_def inherited_def lookup_def Let_def split: option.splits)

lemma attach_free:
  "\<not> blocked_in handlers (eventName r) \<Longrightarrow>
   attach fn r handlers =
     (None, Some (AList.update (eventName r) (entries handlers (eventName r) @ [r\<lparr>handler := fn\<rparr>])
                    (case handlers of None \<Rightarrow> [] | Some t \<Rightarrow> t)))"
  by (auto simp: attach_def blocked_in_def inherited_def lookup_def entries_def Let_def
           split: option.splits)

lemma entries_update:
  "entries (Some (AList.update k v t)) name = (if name = k then v else entries (Some t) name)"
  by (simp add: entries_def update_conv')

lemma entries_table: "entries (Some (case handlers of None \<Rightarrow> [] | Some t \<Rightarrow> t)) name = entries handlers name"
  by (simp add: entries_def split: option.splits)

lemma blocked_in_update:
  "\<not> blocked_in handlers k \<Longrightarrow>
   blocked_in (Some (AList.update k v (case handlers of None \<Rightarrow> [] | Some t \<Rightarrow> t))) name =
     blocked_in handlers name"
  by (auto simp: blocked_in_def update_conv')

lemma for_each_attach_thrown:
  "fst (for_each (attach fn) el handlers) =
     (if \<exists>r \<in> set el. blocked_in handlers (eventName r) then Some TypeError else None)"
proof (induction el arbitrary: handlers)
  case Nil
  then show ?case by simp
next
  case (Cons r el)
  show ?case
  proof (cases "blocked_in handlers (eventName r)")
    case True
    then show ?thesis by (simp add: attach_blocked)
  next
    case False
    then show ?thesis
      by (simp add: attach_free Cons.IH blocked_in_update)
  qed
qed

lemma for_each_attach_entries:
  "entries (snd (for_each (attach fn) el handlers)) name =
     entries handlers name @
     map (\<lambda>r. r\<lparr>handler := fn\<rparr>)
       (filter (\<lambda>r. eventName r = name)
          (takeWhile (\<lambda>r. \<not> blocked_in handlers (eventName r)) el))"
proof (induction el arbitrary: handlers)
  case Nil
  then show ?case by simp
next
  case (Cons r el)
  show ?case
  proof (cases "blocked_in handlers (eventName r)")
    case True
    then show ?thesis by (simp add: attach_blocked entries_table)
  next
    case False
    then show ?thesis
      by (simp add: attach_free Cons.IH blocked_in_update entries_update entries_table)
  qed
qed

lemma for_each_attach_Some:
  "el \<noteq> [] \<or> handlers \<noteq> None \<Longrightarrow> snd (for_each (attach fn) el handlers) \<noteq> None"
proof (induction el arbitrary: handlers)
  case Nil
  then show ?case by simp
next
  case (Cons r el)
  show ?case
  proof (cases "blocked_in handlers (eventName r)")
    case True
    then show ?thesis by (simp add: attach_blocked)
  next
    case False
    with Cons.IH [of "Some (AList.update (eventName r) (entries handlers (eventName r) @ [r\<lparr>handler := fn\<rparr>])
                    (case handlers of None \<Rightarrow> [] | Some t \<Rightarrow> t))"]
    show ?thesis by (simp add: attach_free)
  qed
qed

lemma on_parts:
  "on this (Str s) fn =
     (ends (fst (for_each (attach fn) (eventsList s) (eventHandlers this))) (Obj (ref this)),
      this\<lparr>eventHandlers := snd (for_each (attach fn) (eventsList s) (eventHandlers this))\<rparr>,
      (case deprecatedEvents this of
         None \<Rightarrow> []
       | Some deprecated \<Rightarrow> concat (map (warnings deprecated) (eventsList s))))"
  by (simp add: on_def Let_def split: prod.splits)

lemma takeWhile_map_comp: "takeWhile P (map f xs) = map f (takeWhile (\<lambda>x. P (f x)) xs)"
  by (induction xs) auto

text \<open>
  \<open>on\<close> appends, to the list of each event name, one record for each token that names
  it and comes before the first blocked token, in the order of the tokens, and changes
  nothing else. It throws exactly when some token is blocked.
\<close>

lemma handlers_for_on:
  "handlers_for (fst (snd (on this (Str s) fn))) name =
     handlers_for this name @
     map (\<lambda>token. \<lparr>eventName = token_event token, ns = token_namespace token, handler = fn\<rparr>)
       (filter (\<lambda>token. token_event token = name)
          (takeWhile (\<lambda>token. \<not> blocked this (token_event token)) (split_ws s)))"
  by (simp add: handlers_for_def on_parts for_each_attach_entries eventsList_def blocked_def
      takeWhile_map_comp filter_map comp_def splitNs_parts)

lemma on_completion:
  "fst (on this (Str s) fn) =
     (if \<exists>token \<in> set (split_ws s). blocked this (token_event token) then Throw TypeError
      else Return (Obj (ref this)))"
  by (simp add: on_parts for_each_attach_thrown eventsList_def blocked_def ends_def)

lemma on_not_string: "\<not> is_string events \<Longrightarrow> on this events fn = (Throw TypeError, this, [])"
  by (cases events) (simp_all add: on_def is_string_def)

lemma on_has_table: "eventHandlers (fst (snd (on this (Str s) fn))) \<noteq> None"
  by (simp add: on_parts for_each_attach_Some eventsList_nonempty)

section \<open>What \<open>off\<close> removes\<close>

text \<open>The backward walk with \<open>splice\<close> leaves the records that do not match, in order.\<close>

lemma walk_filter:
  "n \<le> length hl \<Longrightarrow>
   walk eventRec fn n hl = filter (\<lambda>h. \<not> matches eventRec fn h) (take n hl) @ drop n hl"
proof (induction n arbitrary: hl)
  case 0
  then show ?case by simp
next
  case (Suc k)
  then have k: "k < length hl" by simp
  show ?case
  proof (cases "matches eventRec fn (hl ! k)")
    case True
    have "k \<le> length (splice1 k hl)" using k by (simp add: splice1_def)
    from Suc.IH [OF this] True k show ?thesis
      by (simp add: splice1_def take_Suc_conv_app_nth)
  next
    case False
    from Suc.IH [of hl] False k show ?thesis
      by (simp add: take_Suc_conv_app_nth Cons_nth_drop_Suc)
  qed
qed

lemma walk_all: "walk eventRec fn (length hl) hl = filter (\<lambda>h. \<not> matches eventRec fn h) hl"
  by (simp add: walk_filter)

lemma removeAllMatches_thrown:
  "fst (removeAllMatches fn eventRec key t) =
     (if map_of t key = None \<and> fatal key then Some TypeError else None)"
  by (auto simp: removeAllMatches_def lookup_def fatal_def Let_def split: option.splits nat.splits)

lemma removeAllMatches_no_key:
  "map_of t key = None \<Longrightarrow> snd (removeAllMatches fn eventRec key t) = t"
  by (auto simp: removeAllMatches_def lookup_def split: option.splits)

lemma entries_removeAllMatches:
  "entries (Some (snd (removeAllMatches fn eventRec key t))) name =
     (if name = key then filter (\<lambda>h. \<not> matches eventRec fn h) (entries (Some t) name)
      else entries (Some t) name)"
  by (auto simp: entries_def removeAllMatches_def lookup_def Let_def walk_all update_conv'
        delete_conv' split: option.splits)

lemma map_of_removeAllMatches:
  "name \<noteq> key \<Longrightarrow> map_of (snd (removeAllMatches fn eventRec key t)) name = map_of t name"
  by (auto simp: removeAllMatches_def lookup_def Let_def update_conv' delete_conv'
        split: option.splits)

lemma for_each_removeAllMatches:
  assumes "distinct keys" and "\<forall>k \<in> set keys. map_of t k \<noteq> None"
  shows "fst (for_each (removeAllMatches fn eventRec) keys t) = None \<and>
     (\<forall>name. entries (Some (snd (for_each (removeAllMatches fn eventRec) keys t))) name =
        (if name \<in> set keys then filter (\<lambda>h. \<not> matches eventRec fn h) (entries (Some t) name)
         else entries (Some t) name))"
  using assms
proof (induction keys arbitrary: t)
  case Nil
  then show ?case by simp
next
  case (Cons k keys)
  let ?t = "snd (removeAllMatches fn eventRec k t)"
  from Cons.prems have here: "fst (removeAllMatches fn eventRec k t) = None"
    by (simp add: removeAllMatches_thrown)
  have "\<forall>k' \<in> set keys. map_of ?t k' \<noteq> None"
  proof
    fix k' assume k': "k' \<in> set keys"
    with Cons.prems have "k' \<noteq> k" by auto
    then have "map_of ?t k' = map_of t k'" by (rule map_of_removeAllMatches)
    with Cons.prems k' show "map_of ?t k' \<noteq> None" by simp
  qed
  with Cons.IH [of ?t] Cons.prems
  have rest: "fst (for_each (removeAllMatches fn eventRec) keys ?t) = None \<and>
     (\<forall>name. entries (Some (snd (for_each (removeAllMatches fn eventRec) keys ?t))) name =
        (if name \<in> set keys then filter (\<lambda>h. \<not> matches eventRec fn h) (entries (Some ?t) name)
         else entries (Some ?t) name))"
    by simp
  have step: "for_each (removeAllMatches fn eventRec) (k # keys) t =
      for_each (removeAllMatches fn eventRec) keys ?t"
    using here by (cases "removeAllMatches fn eventRec k t") simp
  from Cons.prems have "k \<notin> set keys" by simp
  with rest show ?case
    unfolding step by (auto simp: entries_removeAllMatches)
qed

section \<open>The shape of the table is kept\<close>

lemma tidy_iff:
  "tidy t \<longleftrightarrow>
     distinct (map fst t) \<and>
     (\<forall>name hl. (name, hl) \<in> set t \<longrightarrow>
        hl \<noteq> [] \<and> \<not> inherited name \<and> (\<forall>h \<in> set hl. eventName h = name))"
  unfolding tidy_def by blast

lemma set_update_subset: "set (AList.update k v al) \<subseteq> insert (k, v) (set al)"
  by (induction al) auto

lemma set_delete_subset: "set (AList.delete k al) \<subseteq> set al"
  by (auto simp: AList.delete_eq)

lemma tidy_update:
  "tidy t \<Longrightarrow> hl \<noteq> [] \<Longrightarrow> \<not> inherited name \<Longrightarrow> \<forall>h \<in> set hl. eventName h = name \<Longrightarrow>
   tidy (AList.update name hl t)"
  unfolding tidy_iff using set_update_subset [of name hl t] distinct_update [of t name hl]
  by blast

lemma tidy_delete: "tidy t \<Longrightarrow> tidy (AList.delete name t)"
  unfolding tidy_iff using set_delete_subset [of name t] distinct_delete [of t name]
  by blast

lemma tidy_lookup:
  "tidy t \<Longrightarrow> map_of t name = Some hl \<Longrightarrow>
   hl \<noteq> [] \<and> \<not> inherited name \<and> (\<forall>h \<in> set hl. eventName h = name)"
  unfolding tidy_iff by (blast dest: map_of_SomeD)

lemma tidy_inherited: "tidy t \<Longrightarrow> inherited name \<Longrightarrow> map_of t name = None"
  using tidy_lookup [of t name] by (cases "map_of t name") auto

lemma tidy_distinct: "tidy t \<Longrightarrow> distinct (map fst t)"
  by (simp add: tidy_def)

lemma tidy_empty [simp]: "tidy []"
  by (simp add: tidy_def)

lemma tidy_attach:
  assumes "case handlers of None \<Rightarrow> True | Some t \<Rightarrow> tidy t"
  shows "case snd (attach fn r handlers) of None \<Rightarrow> False | Some t \<Rightarrow> tidy t"
proof -
  let ?t = "case handlers of None \<Rightarrow> [] | Some t \<Rightarrow> t"
  have t: "tidy ?t" using assms by (auto split: option.splits)
  show ?thesis
  proof (cases "blocked_in handlers (eventName r)")
    case True
    with t show ?thesis by (simp add: attach_blocked)
  next
    case False
    have names: "\<forall>h \<in> set (entries handlers (eventName r)). eventName h = eventName r"
    proof (cases "map_of ?t (eventName r)")
      case None
      then show ?thesis by (simp add: entries_def split: option.splits)
    next
      case (Some hl)
      with tidy_lookup [OF t Some] show ?thesis
        by (simp add: entries_def split: option.splits)
    qed
    have "\<not> inherited (eventName r)"
      using False tidy_inherited [OF t, of "eventName r"] by (auto simp: blocked_in_def)
    with names have "tidy (AList.update (eventName r)
        (entries handlers (eventName r) @ [r\<lparr>handler := fn\<rparr>]) ?t)"
      by (intro tidy_update [OF t]) auto
    with False show ?thesis by (simp add: attach_free)
  qed
qed

lemma tidy_for_each_attach:
  "(case handlers of None \<Rightarrow> True | Some t \<Rightarrow> tidy t) \<Longrightarrow>
   (case snd (for_each (attach fn) el handlers) of None \<Rightarrow> True | Some t \<Rightarrow> tidy t)"
proof (induction el arbitrary: handlers)
  case Nil
  then show ?case by simp
next
  case (Cons r el)
  from tidy_attach [OF Cons.prems, of fn r]
  have next_tidy: "case snd (attach fn r handlers) of None \<Rightarrow> True | Some t \<Rightarrow> tidy t"
    by (auto split: option.splits)
  show ?case
  proof (cases "attach fn r handlers")
    case (Pair thrown handlers')
    with next_tidy Cons.IH [of handlers'] show ?thesis
      by (cases thrown) auto
  qed
qed

lemma tidy_removeAllMatches:
  assumes t: "tidy t"
  shows "tidy (snd (removeAllMatches fn eventRec name t))"
proof (cases "map_of t name")
  case None
  with t show ?thesis by (simp add: removeAllMatches_no_key)
next
  case (Some hl)
  from tidy_lookup [OF t Some]
  have "\<forall>h \<in> set (walk eventRec fn (length hl) hl). eventName h = name" "\<not> inherited name"
    by (simp_all add: walk_all)
  with t Some show ?thesis
    by (simp add: removeAllMatches_def lookup_def Let_def tidy_delete tidy_update)
qed

lemma for_each_invariant:
  assumes "\<And>x st. P st \<Longrightarrow> P (snd (body x st))"
  shows "P st \<Longrightarrow> P (snd (for_each body xs st))"
proof (induction xs arbitrary: st)
  case Nil
  then show ?case by simp
next
  case (Cons x xs)
  from assms [OF Cons.prems, of x] Cons.IH [of "snd (body x st)"] show ?case
    by (cases "body x st"; cases "fst (body x st)") auto
qed



lemma tidy_doRemove: "tidy t \<Longrightarrow> tidy (snd (doRemove fn eventRec t))"
  by (simp add: doRemove_def tidy_removeAllMatches for_each_invariant [where P = tidy])

text \<open>\<open>on\<close> and \<open>off\<close> keep a host tidy, whatever their arguments and also where they throw.\<close>

lemma tidy_host_on: "tidy_host this \<Longrightarrow> tidy_host (fst (snd (on this events fn)))"
proof (cases events)
  case (Str s)
  assume "tidy_host this"
  with tidy_for_each_attach [of "eventHandlers this" fn "eventsList s"] Str show ?thesis
    by (simp add: on_parts tidy_host_def)
qed (simp_all add: on_def)

lemma off_parts:
  "eventHandlers this = Some t \<Longrightarrow>
   off this (Str s) fn =
     (ends (fst (for_each (doRemove fn) (eventsList s) t)) (Obj (ref this)),
      this\<lparr>eventHandlers := Some (snd (for_each (doRemove fn) (eventsList s) t))\<rparr>)"
  by (simp add: off_def Let_def split: prod.splits)

lemma off_no_table:
  "eventHandlers this = None \<Longrightarrow> off this (Str s) fn = (Return Undefined, this)"
  by (simp add: off_def Let_def)

lemma tidy_host_off: "tidy_host this \<Longrightarrow> tidy_host (snd (off this events fn))"
proof (cases events)
  case (Str s)
  assume tidy: "tidy_host this"
  show ?thesis
  proof (cases "eventHandlers this")
    case None
    with tidy Str show ?thesis by (simp add: off_no_table)
  next
    case (Some t)
    with tidy have "tidy t" by (simp add: tidy_host_def)
    then have "tidy (snd (for_each (doRemove fn) (eventsList s) t))"
      by (intro for_each_invariant [where P = tidy] tidy_doRemove)
    with Some Str show ?thesis by (simp add: off_parts tidy_host_def)
  qed
qed (simp_all add: off_def)

lemma tidy_host_perform: "tidy_host this \<Longrightarrow> tidy_host (perform r this)"
  by (cases r) (auto simp: tidy_host_on tidy_host_off)

lemma tidy_host_run: "tidy_host this \<Longrightarrow> tidy_host (run rs this)"
  unfolding run_def by (induction rs arbitrary: this) (auto simp: tidy_host_perform)

lemma tidy_host_fresh: "tidy_host (fresh r)"
  by (simp add: tidy_host_def fresh_def)

lemma tidy_host_markDeprecated: "tidy_host (markDeprecated this e instead) = tidy_host this"
  by (simp add: tidy_host_def markDeprecated_def Let_def)

lemma tidy_no_entries:
  assumes t: "tidy t" and none: "\<forall>name. entries (Some t) name = []"
  shows "t = []"
proof (cases t)
  case Nil
  then show ?thesis by simp
next
  case (Cons p t')
  obtain name hl where p: "p = (name, hl)" by (cases p)
  with Cons have "map_of t name = Some hl" by simp
  with tidy_lookup [OF t this] none [rule_format, of name] show ?thesis
    by (simp add: entries_def)
qed

lemma own_keys: "\<forall>k \<in> set (map fst t). map_of t k \<noteq> None"
  by (auto simp: map_of_eq_None_iff)

lemma doRemove_thrown:
  assumes "distinct (map fst t)"
  shows "fst (doRemove fn eventRec t) =
     (if map_of t (eventName eventRec) = None \<and> fatal (eventName eventRec) then Some TypeError
      else None)"
proof (cases "eventName eventRec = []")
  case True
  with for_each_removeAllMatches [OF assms own_keys, of fn eventRec] show ?thesis
    by (simp add: doRemove_def)
next
  case False
  then show ?thesis
    by (simp add: doRemove_def removeAllMatches_thrown)
qed

lemma entries_no_key: "name \<notin> fst ` set t \<Longrightarrow> entries (Some t) name = []"
  by (simp add: entries_def map_of_eq_None_iff [THEN iffD2])

lemma entries_doRemove:
  assumes "distinct (map fst t)"
  shows "entries (Some (snd (doRemove fn eventRec t))) name =
     filter (\<lambda>h. \<not> ((eventName eventRec = [] \<or> eventName eventRec = name) \<and> matches eventRec fn h))
       (entries (Some t) name)"
proof (cases "eventName eventRec = []")
  case True
  from for_each_removeAllMatches [OF assms own_keys, of fn eventRec] True
  show ?thesis
    by (auto simp: doRemove_def entries_no_key)
next
  case False
  then show ?thesis
    by (auto simp: doRemove_def entries_removeAllMatches)
qed


text \<open>
  On a tidy table a fatal name is not a key, so the loop stops exactly at the first fatal
  token, having applied the tokens before it.
\<close>

lemma for_each_doRemove:
  assumes "tidy t"
  shows "fst (for_each (doRemove fn) el t) =
       (if \<exists>r \<in> set el. fatal (eventName r) then Some TypeError else None) \<and>
     entries (Some (snd (for_each (doRemove fn) el t))) name =
       filter (\<lambda>h. \<not> (\<exists>r \<in> set (takeWhile (\<lambda>r. \<not> fatal (eventName r)) el).
                        (eventName r = [] \<or> eventName r = name) \<and> matches r fn h))
         (entries (Some t) name)"
  using assms
proof (induction el arbitrary: t)
  case Nil
  then show ?case by simp
next
  case (Cons r el)
  note distinct = tidy_distinct [OF Cons.prems]
  show ?case
  proof (cases "fatal (eventName r)")
    case True
    have no_key: "map_of t (eventName r) = None"
      using True Cons.prems by (simp add: tidy_inherited fatal_inherited)
    have "eventName r \<noteq> []" using True by auto
    then have "doRemove fn r t = removeAllMatches fn r (eventName r) t"
      by (simp add: doRemove_def)
    with removeAllMatches_thrown [of fn r "eventName r" t]
      removeAllMatches_no_key [OF no_key, of fn r] True no_key
    have "doRemove fn r t = (Some TypeError, t)"
      by (simp add: prod_eq_iff)
    then have "for_each (doRemove fn) (r # el) t = (Some TypeError, t)" by simp
    with True show ?thesis by simp
  next
    case False
    with doRemove_thrown [OF distinct, of fn r]
    have step: "for_each (doRemove fn) (r # el) t = for_each (doRemove fn) el (snd (doRemove fn r t))"
      by (cases "doRemove fn r t") simp
    from Cons.IH [OF tidy_doRemove [OF Cons.prems], of fn r] False show ?thesis
      unfolding step by (simp add: entries_doRemove [OF distinct])
  qed
qed

lemma matches_selected:
  "((token_event token = [] \<or> token_event token = name) \<and> matches (splitNs token) fn h) =
     selected token fn name h"
  using ns_given_token [of token] by (auto simp: matches_def selected_def)

text \<open>
  On a tidy host \<open>off\<close> filters out of every list the records selected by a token that
  comes before the first fatal token, and throws exactly when there is a fatal token.
\<close>

lemma handlers_for_off:
  assumes "tidy_host this"
  shows "handlers_for (snd (off this (Str s) fn)) name =
     filter (\<lambda>h. \<not> (\<exists>token \<in> set (applied s). selected token fn name h))
       (handlers_for this name)"
proof (cases "eventHandlers this")
  case None
  then show ?thesis by (simp add: off_no_table handlers_for_def entries_def)
next
  case (Some t)
  with assms have t: "tidy t" by (simp add: tidy_host_def)
  have "(\<exists>r \<in> set (takeWhile (\<lambda>r. \<not> fatal (eventName r)) (eventsList s)).
            (eventName r = [] \<or> eventName r = name) \<and> matches r fn h) =
        (\<exists>token \<in> set (applied s). selected token fn name h)" for h
    by (simp add: eventsList_def applied_def takeWhile_map_comp matches_selected)
  with for_each_doRemove [OF t, of fn "eventsList s" name] Some show ?thesis
    by (simp add: off_parts handlers_for_def)
qed

lemma tidy_keys_distinct: "tidy_host this \<Longrightarrow> keys_distinct this"
  by (auto simp: tidy_host_def keys_distinct_def tidy_distinct split: option.splits)

lemma off_completion:
  assumes "tidy_host this"
  shows "fst (off this (Str s) fn) =
     (if eventHandlers this = None then Return Undefined
      else if \<exists>token \<in> set (split_ws s). fatal (token_event token) then Throw TypeError
      else Return (Obj (ref this)))"
proof (cases "eventHandlers this")
  case None
  then show ?thesis by (simp add: off_no_table)
next
  case (Some t)
  with assms have t: "tidy t" by (simp add: tidy_host_def)
  from for_each_doRemove [OF t, of fn "eventsList s"] Some show ?thesis
    by (simp add: off_parts eventsList_def ends_def)
qed

lemma applied_all:
  "\<forall>token \<in> set (split_ws s). \<not> fatal (token_event token) \<Longrightarrow> applied s = split_ws s"
  by (simp add: applied_def takeWhile_eq_all_conv)

lemma off_table_None:
  "(eventHandlers (snd (off this events fn)) = None) = (eventHandlers this = None)"
  by (cases events) (auto simp: off_def Let_def split: option.splits prod.splits)

lemma off_returns_this:
  assumes "tidy_host this" and "eventHandlers this \<noteq> None"
    and "\<forall>token \<in> set (split_ws s). \<not> fatal (token_event token)"
  shows "fst (off this (Str s) fn) = Return (Obj (ref this))"
  using assms by (simp add: off_completion)


section \<open>Sequences of \<open>on\<close> and of \<open>off\<close>\<close>

lemma handlers_for_offs:
  assumes "tidy_host this"
  shows "handlers_for (run (offs calls) this) name =
     filter (\<lambda>h. \<not> covers calls name h) (handlers_for this name)"
  using assms
proof (induction calls arbitrary: this)
  case Nil
  then show ?case by (simp add: run_def offs_def covers_def)
next
  case (Cons c calls)
  obtain s fn where c: "c = (s, fn)" by (cases c)
  have "run (offs (c # calls)) this = run (offs calls) (snd (off this (Str s) fn))"
    by (simp add: run_def offs_def c)
  moreover have "covers (c # calls) name h =
      ((\<exists>token \<in> set (applied s). selected token fn name h) \<or> covers calls name h)" for h
    by (auto simp: covers_def c)
  moreover have "tidy_host (snd (off this (Str s) fn))"
    using Cons.prems by (rule tidy_host_off)
  ultimately show ?case
    using Cons.prems by (simp add: Cons.IH handlers_for_off)
qed

lemma set_takeWhile_mono:
  "(\<And>x. P x \<Longrightarrow> Q x) \<Longrightarrow> set (takeWhile P xs) \<subseteq> set (takeWhile Q xs)"
  by (induction xs) auto

text \<open>
  On a tidy host a fatal name is blocked, so the tokens \<open>on\<close> registers are among those
  \<open>off\<close> applies.
\<close>

lemma fatal_blocked: "tidy_host this \<Longrightarrow> fatal name \<Longrightarrow> blocked this name"
  by (auto simp: blocked_def blocked_in_def tidy_host_def fatal_inherited tidy_inherited
      split: option.splits)

lemma registered_applied:
  assumes "tidy_host this"
  shows "set (takeWhile (\<lambda>token. \<not> blocked this (token_event token)) (split_ws s)) \<subseteq> set (applied s)"
  unfolding applied_def using fatal_blocked [OF assms] by (intro set_takeWhile_mono) blast

lemma handlers_for_ons:
  "tidy_host this \<Longrightarrow> h \<in> set (handlers_for (run (ons calls) this) name) \<Longrightarrow>
   h \<in> set (handlers_for this name) \<or> covers calls name h"
proof (induction calls arbitrary: this)
  case Nil
  then show ?case by (simp add: run_def ons_def)
next
  case (Cons c calls)
  obtain s fn where c: "c = (s, fn)" by (cases c)
  let ?next = "fst (snd (on this (Str s) fn))"
  have "run (ons (c # calls)) this = run (ons calls) ?next"
    by (simp add: run_def ons_def c)
  moreover have "tidy_host ?next" using Cons.prems(1) by (rule tidy_host_on)
  ultimately have "h \<in> set (handlers_for ?next name) \<or> covers calls name h"
    using Cons by simp
  then show ?case
  proof
    assume "h \<in> set (handlers_for ?next name)"
    then consider "h \<in> set (handlers_for this name)"
      | token where
        "token \<in> set (takeWhile (\<lambda>token. \<not> blocked this (token_event token)) (split_ws s))"
        "token_event token = name"
        "h = \<lparr>eventName = token_event token, ns = token_namespace token, handler = fn\<rparr>"
      by (auto simp: handlers_for_on)
    then show ?thesis
    proof cases
      case 1
      then show ?thesis by simp
    next
      case 2
      then have "selected token fn name h" by (simp add: selected_def)
      moreover from 2 registered_applied [OF Cons.prems(1), of s] have "token \<in> set (applied s)"
        by blast
      ultimately have "covers (c # calls) name h"
        unfolding covers_def c by auto
      then show ?thesis by simp
    qed
  next
    assume "covers calls name h"
    then have "covers (c # calls) name h" by (auto simp: covers_def)
    then show ?thesis by simp
  qed
qed

lemma covers_rev: "covers (rev calls) name h = covers calls name h"
  by (simp add: covers_def)

lemma ons_has_table:
  "calls \<noteq> [] \<or> eventHandlers this \<noteq> None \<Longrightarrow> eventHandlers (run (ons calls) this) \<noteq> None"
proof (induction calls arbitrary: this)
  case Nil
  then show ?case by (simp add: run_def ons_def)
next
  case (Cons c calls)
  obtain s fn where c: "c = (s, fn)" by (cases c)
  have "run (ons (c # calls)) this = run (ons calls) (fst (snd (on this (Str s) fn)))"
    by (simp add: run_def ons_def c)
  with Cons.IH [of "fst (snd (on this (Str s) fn))"] on_has_table [of this s fn]
  show ?case by simp
qed

lemma offs_table_None:
  "(eventHandlers (run (offs calls) this) = None) = (eventHandlers this = None)"
proof (induction calls arbitrary: this)
  case Nil
  then show ?case by (simp add: run_def offs_def)
next
  case (Cons c calls)
  obtain s fn where c: "c = (s, fn)" by (cases c)
  have "run (offs (c # calls)) this = run (offs calls) (snd (off this (Str s) fn))"
    by (simp add: run_def offs_def c)
  with Cons.IH [of "snd (off this (Str s) fn)"] show ?case
    by (simp add: off_table_None)
qed

section \<open>Dispatch: basic facts\<close>

lemma trigger_dispatch:
  "\<not> inherited name \<Longrightarrow>
   trigger env this name extra = dispatch env (Obj (ref this)) name extra (handlers_for this name)"
  by (simp add: trigger_def handlers_for_def entries_def lookup_def inherited_def
      split: option.splits)

text \<open>No list for the event name: no call, nothing written, a normal return.\<close>

lemma trigger_none:
  "\<not> inherited name \<Longrightarrow> handlers_for this name = [] \<Longrightarrow>
   trigger env this name extra = (Return Undefined, [], [])"
  by (simp add: trigger_dispatch)

lemma listener_reportable:
  "reportable env \<lparr>type = name, target = this\<rparr> extra h \<Longrightarrow>
   listener env this name extra h =
     (Return Undefined,
      fst (invoke env (handler h) \<lparr>type = name, target = this\<rparr> extra),
      report this name (snd (invoke env (handler h) \<lparr>type = name, target = this\<rparr> extra)))"
  by (cases "handler h")
     (auto simp: listener_def invoke_def caught_def reportable_def report_def
           split: completion.splits)

lemma dispatch_reportable:
  "\<forall>h \<in> set hl. reportable env \<lparr>type = name, target = this\<rparr> extra h \<Longrightarrow>
   dispatch env this name extra hl =
     (Return Undefined,
      concat (map (\<lambda>h. fst (invoke env (handler h) \<lparr>type = name, target = this\<rparr> extra)) hl),
      concat (map (\<lambda>h. report this name
                      (snd (invoke env (handler h) \<lparr>type = name, target = this\<rparr> extra))) hl))"
  by (induction hl) (simp_all add: listener_reportable)

text \<open>
  As long as no handler of the event throws \<open>null\<close> or \<open>undefined\<close>, \<open>trigger\<close> returns
  normally, has called every function registered for the event once, in the order of
  registration, with the event object and the further arguments, and has written one
  error for each call that threw.
\<close>

lemma trigger_isolates:
  assumes "\<not> inherited name"
    and "\<forall>h \<in> set (handlers_for this name).
             reportable env \<lparr>type = name, target = Obj (ref this)\<rparr> extra h"
  shows "trigger env this name extra =
     (Return Undefined,
      concat (map (\<lambda>h. fst (invoke env (handler h) \<lparr>type = name, target = Obj (ref this)\<rparr> extra))
                (handlers_for this name)),
      concat (map (\<lambda>h. report (Obj (ref this)) name
                      (snd (invoke env (handler h) \<lparr>type = name, target = Obj (ref this)\<rparr> extra)))
                (handlers_for this name)))"
  using assms by (simp add: trigger_dispatch dispatch_reportable)

text \<open>
  A function that throws \<open>null\<close> or \<open>undefined\<close> ends the dispatch: the TypeError of the
  catch clause leaves \<open>trigger\<close>, the handlers after it are not called and nothing is
  written for it.
\<close>

lemma dispatch_aborts:
  assumes "handler h = Fun f"
    and "env f \<lparr>type = name, target = this\<rparr> extra = Throw Null \<or>
         env f \<lparr>type = name, target = this\<rparr> extra = Throw Undefined"
  shows "dispatch env this name extra (h # hs) =
     (Throw TypeError, [\<lparr>callee = f, event_arg = \<lparr>type = name, target = this\<rparr>, args = extra\<rparr>], [])"
  using assms by (auto simp: listener_def invoke_def caught_def)

text \<open>
  Two handlers of the event \<open>a\<close>, the first throwing the string \<open>boom\<close>: both are
  called, the error is written and \<open>trigger\<close> returns. And \<open>trigger\<close> of the inherited
  name \<open>hasOwnProperty\<close>, a function of length 1: one error is written, nothing called.
\<close>

lemma trigger_isolates_example:
  "trigger (\<lambda>f ev xs. if f = 0 then Throw (Str ''boom'') else Return Undefined)
     (run [On (Str ''a'') (Fun 0), On (Str ''a'') (Fun 1)] (fresh 0)) ''a'' [Bool True] =
   (Return Undefined,
    [\<lparr>callee = 0, event_arg = \<lparr>type = ''a'', target = Obj 0\<rparr>, args = [Bool True]\<rparr>,
     \<lparr>callee = 1, event_arg = \<lparr>type = ''a'', target = Obj 0\<rparr>, args = [Bool True]\<rparr>],
    report (Obj 0) ''a'' (Throw (Str ''boom'')))"
  by code_simp

lemma trigger_inherited_example:
  "trigger env (run [On (Str ''a'') (Fun 0)] (fresh 0)) ''hasOwnProperty'' [] =
   (Return Undefined, [], report (Obj 0) ''hasOwnProperty'' (Throw TypeError))"
  by code_simp

section \<open>Deprecation: basic facts\<close>

lemma warnings_update:
  "warnings (AList.update e d deprecated) token =
     (if eventName token = e
      then (if truthy d then [Warn (deprecation_message e d)] else [])
      else warnings deprecated token)"
  by (simp add: warnings_def lookup_def update_conv')

lemma on_console:
  "snd (snd (on this (Str s) fn)) =
     (case deprecatedEvents this of
        None \<Rightarrow> []
      | Some deprecated \<Rightarrow> concat (map (warnings deprecated) (eventsList s)))"
  by (simp add: on_parts)

text \<open>
  After \<open>markDeprecated\<close> of the event name \<open>e\<close>, \<open>on\<close> writes one warning for each token
  that names \<open>e\<close>, and for the other tokens what the table gives without it.
\<close>

lemma on_after_markDeprecated:
  assumes "e \<noteq> ''__proto__''"
  shows "snd (snd (on (markDeprecated this e instead) (Str s) fn)) =
     concat (map (\<lambda>token.
        if eventName token = e
        then [Warn (deprecation_message e (if truthy instead then instead else Bool True))]
        else warnings (case deprecatedEvents this of None \<Rightarrow> [] | Some d \<Rightarrow> d) token)
      (eventsList s))"
proof -
  define d where "d = (if truthy instead then instead else Bool True)"
  define base where "base = (case deprecatedEvents this of None \<Rightarrow> [] | Some x \<Rightarrow> x)"
  have d: "truthy d" by (simp add: d_def)
  have "deprecatedEvents (markDeprecated this e instead) = Some (AList.update e d base)"
    using assms by (simp add: markDeprecated_def d_def base_def Let_def)
  then have "snd (snd (on (markDeprecated this e instead) (Str s) fn)) =
      concat (map (warnings (AList.update e d base)) (eventsList s))"
    by (simp add: on_console)
  also have "warnings (AList.update e d base) =
      (\<lambda>token. if eventName token = e then [Warn (deprecation_message e d)]
                else warnings base token)"
    using d by (simp add: fun_eq_iff warnings_update)
  finally show ?thesis by (simp only: d_def base_def)
qed

text \<open>The table of deprecated events has no part in what \<open>on\<close> registers or returns.\<close>

lemma on_registration_ignores_deprecation:
  "fst (on (markDeprecated this e instead) events fn) = fst (on this events fn) \<and>
   eventHandlers (fst (snd (on (markDeprecated this e instead) events fn))) =
     eventHandlers (fst (snd (on this events fn)))"
  by (cases events) (simp_all add: on_def markDeprecated_def Let_def split: prod.splits)

lemma message_names_event: "sublist e (deprecation_message e d)"
proof -
  have "deprecation_message e d =
      (''Registering for deprecated event '' @ [CHR 0x27]) @ e @
      ([CHR 0x27] @ ''.'' @
       (case d of Str instead \<Rightarrow> '' Use '' @ instead @ '' instead.'' | _ \<Rightarrow> []))"
    by (simp add: deprecation_message_def)
  then show ?thesis by (metis sublist_appendI)
qed

lemma message_names_replacement: "sublist x (deprecation_message e (Str x))"
proof -
  have "deprecation_message e (Str x) =
      (''Registering for deprecated event '' @ [CHR 0x27] @ e @ [CHR 0x27] @ ''.'' @ '' Use '') @
      x @ '' instead.''"
    by (simp add: deprecation_message_def)
  then show ?thesis by (metis sublist_appendI)
qed

section \<open>The claims\<close>

text \<open>
  C1. A handler that throws during \<open>trigger\<close> does not keep the later handlers of the
  same dispatch from being called, nothing reaches the caller of \<open>trigger\<close>, the
  failure goes to the error console and \<open>trigger\<close> returns normally.

  \<open>trigger_isolates\<close> above shows this for every thrown value except \<open>null\<close> and
  \<open>undefined\<close>. For those two the code fails: the catch clause reads \<open>err.stack\<close>,
  which throws a TypeError out of \<open>trigger\<close>. Here the first of two handlers of the
  event \<open>a\<close> throws \<open>null\<close>: the second handler is never called, nothing is written
  and the caller of \<open>trigger\<close> gets the TypeError.
\<close>

theorem trigger_aborts_on_thrown_null:
  "trigger (\<lambda>f ev xs. if f = 0 then Throw Null else Return Undefined)
     (run [On (Str ''a'') (Fun 0), On (Str ''a'') (Fun 1)] (fresh 0)) ''a'' [] =
   (Throw TypeError,
    [\<lparr>callee = 0, event_arg = \<lparr>type = ''a'', target = Obj 0\<rparr>, args = []\<rparr>],
    [])"
  by code_simp

text \<open>
  C2. For every event name and every list of further arguments, \<open>trigger\<close> calls each
  handler registered for the event name once, in the order of registration, with the
  event object \<open>{type, target}\<close> and then the further arguments; with no list for the
  event name it returns at once, calling nothing and reporting nothing.

  \<open>trigger_isolates\<close> and \<open>trigger_none\<close> above show this as long as no handler throws
  \<open>null\<close> or \<open>undefined\<close>. Where one does, the defect of C1 ends the dispatch: here
  three handlers are registered for \<open>change\<close>, the second throws \<open>undefined\<close>, and the
  third is not called.
\<close>

theorem trigger_misses_handler_after_thrown_undefined:
  "map handler
     (handlers_for
        (run [On (Str ''change'') (Fun 0), On (Str ''change'') (Fun 1),
              On (Str ''change'') (Fun 2)] (fresh 0)) ''change'') =
     [Fun 0, Fun 1, Fun 2] \<and>
   trigger (\<lambda>f ev xs. if f = 1 then Throw Undefined else Return Undefined)
     (run [On (Str ''change'') (Fun 0), On (Str ''change'') (Fun 1),
           On (Str ''change'') (Fun 2)] (fresh 0)) ''change'' [Str ''x''] =
   (Throw TypeError,
    [\<lparr>callee = 0, event_arg = \<lparr>type = ''change'', target = Obj 0\<rparr>, args = [Str ''x'']\<rparr>,
     \<lparr>callee = 1, event_arg = \<lparr>type = ''change'', target = Obj 0\<rparr>, args = [Str ''x'']\<rparr>],
    [])"
  by code_simp




text \<open>
  C4. Registering the same function twice for the event \<open>a\<close> gives two records, so that
  \<open>trigger\<close> of \<open>a\<close> calls the function exactly twice, and one \<open>off("a", handler)\<close> with
  that function removes both.

  The two records and their removal hold (\<open>handlers_for_on\<close>, \<open>handlers_for_off\<close>), and
  by \<open>trigger_isolates\<close> the function is called twice unless it throws \<open>null\<close> or
  \<open>undefined\<close>. For a function that does, the defect of C1 ends the dispatch after
  the first call: two records, one call, and \<open>off\<close> removes both records.
\<close>

theorem duplicate_handler_called_once_when_it_throws_null:
  "handlers_for (run [On (Str ''a'') (Fun 0), On (Str ''a'') (Fun 0)] (fresh 0)) ''a'' =
     [\<lparr>eventName = ''a'', ns = None, handler = Fun 0\<rparr>,
      \<lparr>eventName = ''a'', ns = None, handler = Fun 0\<rparr>] \<and>
   trigger (\<lambda>f ev xs. Throw Null)
     (run [On (Str ''a'') (Fun 0), On (Str ''a'') (Fun 0)] (fresh 0)) ''a'' [] =
   (Throw TypeError,
    [\<lparr>callee = 0, event_arg = \<lparr>type = ''a'', target = Obj 0\<rparr>, args = []\<rparr>],
    []) \<and>
   handlers_for
     (run [On (Str ''a'') (Fun 0), On (Str ''a'') (Fun 0), Off (Str ''a'') (Fun 0)] (fresh 0))
     ''a'' = []"
  by code_simp

text \<open>
  C5. \<open>on\<close> fails with an invalid-argument error, and registers nothing, whenever the
  event list is empty or not a string, or \<open>fn\<close> is not callable.

  \<open>on\<close> checks neither argument. As amended: \<open>on\<close> throws a TypeError in two cases.
  On an event list that is not a string \<open>events.split\<close> throws, and the host is left as
  it was. On a string with a token whose event name is blocked (it reads as a member
  inherited from \<open>Object.prototype\<close>, such as \<open>toString\<close>) \<open>push\<close> throws at the first
  such token: the table exists by then and the tokens before that one are registered,
  those from it on are not. On every other string, the empty one included, and with
  any \<open>fn\<close>, callable or not, \<open>on\<close> returns the host and appends one record for each
  token; the empty string gives one record under the empty event name.
\<close>

theorem on_throws_on_non_string_or_inherited_name:
  "(\<not> is_string events \<longrightarrow> on this events fn = (Throw TypeError, this, [])) \<and>
   fst (on this (Str s) fn) =
     (if \<exists>token \<in> set (split_ws s). blocked this (token_event token) then Throw TypeError
      else Return (Obj (ref this))) \<and>
   handlers_for (fst (snd (on this (Str s) fn))) name =
     handlers_for this name @
     map (\<lambda>token. \<lparr>eventName = token_event token, ns = token_namespace token, handler = fn\<rparr>)
       (filter (\<lambda>token. token_event token = name)
          (takeWhile (\<lambda>token. \<not> blocked this (token_event token)) (split_ws s))) \<and>
   fst (on this (Str []) fn) = Return (Obj (ref this)) \<and>
   handlers_for (fst (snd (on this (Str []) fn))) [] =
     handlers_for this [] @ [\<lparr>eventName = [], ns = None, handler = fn\<rparr>]"
proof -
  have empty: "split_ws [] = [[]]" by (simp add: split_ws_def)
  have free: "\<not> blocked this []" by (simp add: blocked_def blocked_in_def)
  from empty free have "fst (on this (Str []) fn) = Return (Obj (ref this))"
    by (simp add: on_completion)
  moreover from empty free have "handlers_for (fst (snd (on this (Str []) fn))) [] =
      handlers_for this [] @ [\<lparr>eventName = [], ns = None, handler = fn\<rparr>]"
    by (simp add: handlers_for_on)
  ultimately show ?thesis
    by (simp add: on_not_string on_completion handlers_for_on)
qed

text \<open>
  At \<open>on(undefined, f)\<close> and at \<open>on("a toString b", f)\<close> on a fresh host: the first
  changes nothing, the second registers \<open>a\<close>, throws and leaves \<open>b\<close> out.
\<close>

theorem on_throws_on_non_string_or_inherited_name_witness:
  "\<not> is_string Undefined \<and> on (fresh 0) Undefined (Fun 0) = (Throw TypeError, fresh 0, []) \<and>
   fst (on (fresh 0) (Str ''a toString b'') (Fun 0)) = Throw TypeError \<and>
   handlers_for (fst (snd (on (fresh 0) (Str ''a toString b'') (Fun 0)))) ''a'' =
     [\<lparr>eventName = ''a'', ns = None, handler = Fun 0\<rparr>] \<and>
   handlers_for (fst (snd (on (fresh 0) (Str ''a toString b'') (Fun 0)))) ''b'' = []"
proof -
  have a: "\<not> is_string Undefined" by (simp add: is_string_def)
  have b: "fst (on (fresh 0) (Str ''a toString b'') (Fun 0)) = Throw TypeError" by code_simp
  have c: "handlers_for (fst (snd (on (fresh 0) (Str ''a toString b'') (Fun 0)))) ''a'' =
     [\<lparr>eventName = ''a'', ns = None, handler = Fun 0\<rparr>]" by code_simp
  have d: "handlers_for (fst (snd (on (fresh 0) (Str ''a toString b'') (Fun 0)))) ''b'' = []"
    by code_simp
  from on_throws_on_non_string_or_inherited_name [of Undefined "fresh 0" "Fun 0"] a b c d
  show ?thesis by simp
qed

text \<open>
  The claim C5 fails at \<open>on("", f)\<close> and at \<open>on("a", true)\<close> on a fresh host: both
  return the host and register a record.
\<close>

theorem on_accepts_empty_and_non_callable:
  "fst (on (fresh 0) (Str []) (Fun 0)) = Return (Obj 0) \<and>
   handlers_for (fst (snd (on (fresh 0) (Str []) (Fun 0)))) [] =
     [\<lparr>eventName = [], ns = None, handler = Fun 0\<rparr>] \<and>
   fst (on (fresh 0) (Str ''a'') (Bool True)) = Return (Obj 0) \<and>
   handlers_for (fst (snd (on (fresh 0) (Str ''a'') (Bool True)))) ''a'' =
     [\<lparr>eventName = ''a'', ns = None, handler = Bool True\<rparr>]"
  by code_simp

text \<open>
  C6. Every call of \<open>off\<close> returns the host itself, for chaining, also on a host that
  has never registered a handler.

  With a table \<open>off\<close> returns the host (\<open>off_returns_this\<close>). Without one it leaves by
  the bare \<^verbatim>\<open>return;\<close> and returns \<open>undefined\<close> (\<open>off_no_table\<close>), as here on a fresh
  host.
\<close>

theorem off_without_table_returns_undefined:
  "off (fresh 0) (Str ''a'') Undefined = (Return Undefined, fresh 0)"
  by code_simp

text \<open>
  C7. After every sequence of calls of \<open>on\<close> and \<open>off\<close>, each event name that is a key
  of the table holds a list that is not empty.

  The sequence starts on a fresh host; its calls take any arguments, those that throw
  included.
\<close>

theorem table_lists_never_empty:
  assumes "eventHandlers (run rs (fresh r)) = Some t" and "map_of t name = Some hl"
  shows "hl \<noteq> []"
proof -
  have "tidy_host (run rs (fresh r))" by (simp add: tidy_host_run tidy_host_fresh)
  with assms(1) have "tidy t" by (simp add: tidy_host_def)
  from tidy_lookup [OF this assms(2)] show ?thesis by simp
qed

text \<open>At \<open>on("a b", f)\<close> followed by \<open>off("b")\<close>: the key \<open>b\<close> is gone, \<open>a\<close> holds one record.\<close>

theorem table_lists_never_empty_witness:
  "eventHandlers (run [On (Str ''a b'') (Fun 0), Off (Str ''b'') Undefined] (fresh 0)) =
     Some [(''a'', [\<lparr>eventName = ''a'', ns = None, handler = Fun 0\<rparr>])] \<and>
   map_of [(''a'', [\<lparr>eventName = ''a'', ns = None, handler = Fun 0\<rparr>])] ''a'' =
     Some [\<lparr>eventName = ''a'', ns = None, handler = Fun 0\<rparr>] \<and>
   [\<lparr>eventName = ''a'', ns = None, handler = Fun 0\<rparr>] \<noteq> []"
proof -
  have a: "eventHandlers (run [On (Str ''a b'') (Fun 0), Off (Str ''b'') Undefined] (fresh 0)) =
     Some [(''a'', [\<lparr>eventName = ''a'', ns = None, handler = Fun 0\<rparr>])]" by code_simp
  have b: "map_of [(''a'', [\<lparr>eventName = ''a'', ns = None, handler = Fun 0\<rparr>])] ''a'' =
     Some [\<lparr>eventName = ''a'', ns = None, handler = Fun 0\<rparr>]" by simp
  from table_lists_never_empty [OF a b] a b show ?thesis by simp
qed

text \<open>
  C8. For every sequence of calls of \<open>on\<close> on a host with no handler table, the calls
  of \<open>off\<close> with the same event lists and functions, made in the reverse order, leave
  the table with no record under any event name.

  The table is then empty: no key is left at all (and with no call at all there is
  still no table). Calls that throw are among them: \<open>on\<close> stops at the first blocked
  token and \<open>off\<close> at the first fatal one, which is that one or a later one.
\<close>

theorem on_off_round_trip:
  "eventHandlers
     (run (offs (rev calls)) (run (ons calls) (this\<lparr>eventHandlers := None\<rparr>))) =
     (if calls = [] then None else Some [])"
proof (cases "calls = []")
  case True
  then show ?thesis by (simp add: run_def ons_def offs_def)
next
  case False
  let ?start = "this\<lparr>eventHandlers := None\<rparr>"
  let ?mid = "run (ons calls) ?start"
  let ?final = "run (offs (rev calls)) ?mid"
  have start: "tidy_host ?start" by (simp add: tidy_host_def)
  then have mid: "tidy_host ?mid" by (rule tidy_host_run)
  then have "tidy_host ?final" by (rule tidy_host_run)
  moreover have "eventHandlers ?final \<noteq> None"
    using False ons_has_table [of calls ?start] by (simp add: offs_table_None)
  then obtain t where t: "eventHandlers ?final = Some t" by auto
  ultimately have "tidy t" by (simp add: tidy_host_def)
  have "entries (Some t) name = []" for name
  proof -
    have "\<forall>h \<in> set (handlers_for ?mid name). covers calls name h"
      using handlers_for_ons [OF start, of _ calls name]
      by (auto simp: handlers_for_def entries_def)
    then have "handlers_for ?final name = []"
      by (simp add: handlers_for_offs [OF mid] covers_rev)
    with t show ?thesis by (simp add: handlers_for_def)
  qed
  with \<open>tidy t\<close> have "t = []" by (simp add: tidy_no_entries)
  with t False show ?thesis by simp
qed

text \<open>
  C9. After \<open>markDeprecated\<close> of an event name, a call of \<open>on\<close> for that event name
  writes one warning for each token that names it, with the event name in the message
  and the replacement when one was given; the registration is made all the same, so
  that a later \<open>trigger\<close> calls the handler.

  The warnings (\<open>on_after_markDeprecated\<close>, \<open>message_names_event\<close>,
  \<open>message_names_replacement\<close>) and the registration (\<open>handlers_for_on\<close>,
  \<open>on_registration_ignores_deprecation\<close>) hold. That a later \<open>trigger\<close> calls the
  handler holds by \<open>trigger_isolates\<close> unless a handler registered before it throws
  \<open>null\<close> or \<open>undefined\<close>: then the defect of C1 ends the dispatch first. Here the
  warning is written and the handler 1 registered, and \<open>trigger\<close> does not call it.
\<close>

theorem deprecated_registration_not_reached_by_trigger:
  "snd (snd (on (markDeprecated (run [On (Str ''a'') (Fun 0)] (fresh 0)) ''a'' (Str ''b''))
               (Str ''a'') (Fun 1))) =
     [Warn (deprecation_message ''a'' (Str ''b''))] \<and>
   map handler
     (handlers_for
        (fst (snd (on (markDeprecated (run [On (Str ''a'') (Fun 0)] (fresh 0)) ''a'' (Str ''b''))
                    (Str ''a'') (Fun 1)))) ''a'') = [Fun 0, Fun 1] \<and>
   trigger (\<lambda>f ev xs. if f = 0 then Throw Null else Return Undefined)
     (fst (snd (on (markDeprecated (run [On (Str ''a'') (Fun 0)] (fresh 0)) ''a'' (Str ''b''))
                 (Str ''a'') (Fun 1)))) ''a'' [] =
   (Throw TypeError,
    [\<lparr>callee = 0, event_arg = \<lparr>type = ''a'', target = Obj 0\<rparr>, args = []\<rparr>],
    [])"
  by code_simp

text \<open>
  C10. For every \<open>fn\<close>, a call of \<open>on\<close> with an event list that starts or ends with
  white space splits off an empty token besides the named ones, and so registers a
  record under the empty event name next to the records meant.

  As amended: the empty token is always split off. The record under the empty event
  name is registered when the white space is at the start (the empty token is then the
  first), and in every case when no token has a blocked event name (one that reads as
  a member inherited from \<open>Object.prototype\<close>, such as \<open>toString\<close>); then \<open>on\<close> returns
  the host and every token has its record. At a blocked token \<open>on\<close> throws and
  registers nothing from there on.
\<close>

theorem on_boundary_whitespace:
  assumes "s \<noteq> []" and "is_space (hd s) \<or> is_space (last s)"
  shows "[] \<in> set (split_ws s) \<and>
     (is_space (hd s) \<longrightarrow>
        \<lparr>eventName = [], ns = None, handler = fn\<rparr>
          \<in> set (handlers_for (fst (snd (on this (Str s) fn))) [])) \<and>
     ((\<forall>token \<in> set (split_ws s). \<not> blocked this (token_event token)) \<longrightarrow>
        fst (on this (Str s) fn) = Return (Obj (ref this)) \<and>
        \<lparr>eventName = [], ns = None, handler = fn\<rparr>
          \<in> set (handlers_for (fst (snd (on this (Str s) fn))) []) \<and>
        (\<forall>token \<in> set (split_ws s).
           \<lparr>eventName = token_event token, ns = token_namespace token, handler = fn\<rparr>
             \<in> set (handlers_for (fst (snd (on this (Str s) fn))) (token_event token))))"
proof (intro conjI impI)
  from assms show e: "[] \<in> set (split_ws s)" by (rule split_ws_boundary)
  have free: "\<not> blocked this []" by (simp add: blocked_def blocked_in_def)
  {
    assume "is_space (hd s)"
    with assms(1) obtain rest where "split_ws s = [] # rest"
      using split_ws_leading by blast
    with free show "\<lparr>eventName = [], ns = None, handler = fn\<rparr>
          \<in> set (handlers_for (fst (snd (on this (Str s) fn))) [])"
      by (simp add: handlers_for_on)
  }
  {
    assume all: "\<forall>token \<in> set (split_ws s). \<not> blocked this (token_event token)"
    then have whole: "takeWhile (\<lambda>token. \<not> blocked this (token_event token)) (split_ws s) = split_ws s"
      by (simp add: takeWhile_eq_all_conv)
    from all show "fst (on this (Str s) fn) = Return (Obj (ref this))"
      by (simp add: on_completion)
    show all_registered: "\<forall>token \<in> set (split_ws s).
           \<lparr>eventName = token_event token, ns = token_namespace token, handler = fn\<rparr>
             \<in> set (handlers_for (fst (snd (on this (Str s) fn))) (token_event token))"
      by (auto simp: handlers_for_on whole)
    from all_registered e show "\<lparr>eventName = [], ns = None, handler = fn\<rparr>
          \<in> set (handlers_for (fst (snd (on this (Str s) fn))) [])"
      by force
  }
qed

text \<open>At \<open>on(" a", f)\<close> on a fresh host: one record under the empty name, one under \<open>a\<close>.\<close>

theorem on_boundary_whitespace_witness:
  "'' a'' \<noteq> [] \<and> (is_space (hd '' a'') \<or> is_space (last '' a'')) \<and>
   split_ws '' a'' = [[], ''a''] \<and>
   \<not> blocked (fresh 0) (token_event []) \<and> \<not> blocked (fresh 0) (token_event ''a'') \<and>
   fst (on (fresh 0) (Str '' a'') (Fun 0)) = Return (Obj 0) \<and>
   handlers_for (fst (snd (on (fresh 0) (Str '' a'') (Fun 0)))) [] =
     [\<lparr>eventName = [], ns = None, handler = Fun 0\<rparr>] \<and>
   handlers_for (fst (snd (on (fresh 0) (Str '' a'') (Fun 0)))) ''a'' =
     [\<lparr>eventName = ''a'', ns = None, handler = Fun 0\<rparr>]"
proof -
  have a: "'' a'' \<noteq> []" by simp
  have b: "is_space (hd '' a'') \<or> is_space (last '' a'')" by (simp add: is_space_def)
  have tokens: "split_ws '' a'' = [[], ''a'']" by code_simp
  have free: "\<not> blocked (fresh 0) (token_event [])" "\<not> blocked (fresh 0) (token_event ''a'')"
    by code_simp+
  have c: "handlers_for (fst (snd (on (fresh 0) (Str '' a'') (Fun 0)))) [] =
     [\<lparr>eventName = [], ns = None, handler = Fun 0\<rparr>]" by code_simp
  have d: "handlers_for (fst (snd (on (fresh 0) (Str '' a'') (Fun 0)))) ''a'' =
     [\<lparr>eventName = ''a'', ns = None, handler = Fun 0\<rparr>]" by code_simp
  from on_boundary_whitespace [OF a b, of "Fun 0" "fresh 0"] tokens free
  have "fst (on (fresh 0) (Str '' a'') (Fun 0)) = Return (Obj (ref (fresh 0)))" by simp
  then have e: "fst (on (fresh 0) (Str '' a'') (Fun 0)) = Return (Obj 0)"
    by (simp add: fresh_def)
  from a b tokens free c d e show ?thesis by simp
qed

text \<open>
  The claim C10 fails at \<open>on("toString ", f)\<close> on a fresh host: the empty token comes
  after \<open>toString\<close>, where \<open>on\<close> throws, and no record is registered under the empty
  event name.
\<close>

theorem on_registers_nothing_after_inherited_name:
  "is_space (last ''toString '') \<and> split_ws ''toString '' = [''toString'', []] \<and>
   on (fresh 0) (Str ''toString '') (Fun 0) =
     (Throw TypeError, \<lparr>ref = 0, eventHandlers = Some [], deprecatedEvents = None\<rparr>, []) \<and>
   handlers_for (fst (snd (on (fresh 0) (Str ''toString '') (Fun 0)))) [] = []"
  by code_simp

end
